theory Spec2Isabelle
  imports Main "HOL-Library.Word" "HOL-Library.Multiset" "HOL-Library.Sublist"
begin

unbundle bit_operations_syntax

section \<open>Numbers and bitmasks\<close>

text \<open>
  The program keeps every set of board squares in a JavaScript number and combines
  them with \<open>|\<close>, \<open>&\<close> and \<open>~\<close>. These operators convert their operands to 32-bit
  integers (ToInt32) and return a 32-bit integer, so a bitmask is a \<open>32 word\<close>: the bit
  pattern of the number. \<open>Math.pow(2, i)\<close> is kept as \<open>2 ^ i\<close> in that type (which is 0
  from \<open>i = 32\<close> on), since every reader of a stored position applies \<open>|\<close> to it first.
  Counts, differences of counts and ranks are JavaScript numbers holding integers:
  they are \<open>int\<close>.
\<close>

type_synonym bitmask = "32 word"

datatype error = TypeError

text \<open>A word of the dictionary, the array \<open>[text, letters, rank]\<close>.\<close>

record wordStruct =
  wordText :: string
  letters :: string
  rank :: int

text \<open>A raw move, the array \<open>[wordStruct, bitmap]\<close>.\<close>

type_synonym rawMove = "wordStruct \<times> bitmask"

section \<open>src/lib/adjacent.js\<close>

text \<open>Pairs of board position and adjacent positions, as bitmasks from bits 0 to 24.\<close>

definition adjacent :: "(bitmask \<times> bitmask) list" where
  "adjacent =
    [(1, 34), (2, 69), (4, 138), (8, 276), (16, 520),
     (32, 1089), (64, 2210), (128, 4420), (256, 8840), (512, 16656),
     (1024, 34848), (2048, 70720), (4096, 141440), (8192, 282880), (16384, 532992),
     (32768, 1115136), (65536, 2263040), (131072, 4526080), (262144, 9052160),
     (524288, 17055744),
     (1048576, 2129920), (2097152, 5308416), (4194304, 10616832), (8388608, 21233664),
     (16777216, 8912896)]"

section \<open>What the module imports\<close>

text \<open>
  Modelled from the spec: \<open>countBits\<close> of letterpress-bitmask, which is not among the
  sources. The spec calls it the bit population count.
\<close>

definition countBits :: "bitmask \<Rightarrow> int" where
  "countBits x = int (length (filter (bit x) [0..<32]))"

text \<open>
  Modelled from the spec: \<open>getProtectedBitMask\<close> of letterpress-bitmask, which is not
  among the sources. The spec: the subset of the ownership mask where every adjacent
  position (per the adjacency table) is also set in the ownership mask.
\<close>

definition getProtectedBitMask :: "bitmask \<Rightarrow> bitmask" where
  "getProtectedBitMask bitMask =
     foldl (\<lambda>acc a. if fst a AND bitMask \<noteq> 0 \<and> snd a AND bitMask = snd a
                     then acc OR fst a else acc) 0 adjacent"

text \<open>
  The constants of letterpress-config, which is not among the sources, are a parameter:
  \<open>MAX_BITMASK\<close> (the spec's full board bitmask) and \<open>POSITIONS_TO_WIN\<close> (the spec's win
  threshold), both JavaScript numbers.
\<close>

record lpConfig =
  MAX_BITMASK :: int
  POSITIONS_TO_WIN :: int

section \<open>getBoardPositionMap\<close>

text \<open>
  The loop over the board, at index \<open>i\<close> with the rest of the board still to read.
  \<open>boardMap\<close> is the object being filled: a letter that is not a key yet gets the empty
  array, then the position is pushed.
\<close>

fun boardPositionLoop ::
  "nat \<Rightarrow> string \<Rightarrow> (char \<rightharpoonup> bitmask list) \<Rightarrow> (char \<rightharpoonup> bitmask list)" where
  "boardPositionLoop i [] boardMap = boardMap"
| "boardPositionLoop i (c # cs) boardMap =
     boardPositionLoop (i + 1) cs
       (boardMap(c \<mapsto> (case boardMap c of None \<Rightarrow> [] | Some ps \<Rightarrow> ps) @ [2 ^ i]))"

definition getBoardPositionMap :: "string \<Rightarrow> (char \<rightharpoonup> bitmask list)" where
  "getBoardPositionMap board = boardPositionLoop 0 board Map.empty"

section \<open>kCombinations\<close>

text \<open>
  The inner function \<open>kc(count, start, curr)\<close>. The list argument is the part of \<open>bits\<close>
  from index \<open>start\<close> on: the loop body runs for its head, and the loop goes on with
  its tail, the same \<open>count\<close> and the same \<open>curr\<close>. The result is what the call pushes
  on \<open>results\<close>, in order. (\<open>count'\<close> and \<open>curr'\<close> are the source's \<open>count\<close> and \<open>curr\<close>,
  names the library already uses.)
\<close>

fun kc :: "int \<Rightarrow> bitmask list \<Rightarrow> bitmask \<Rightarrow> bitmask list" where
  "kc count' [] curr' = []"
| "kc count' (b # bs) curr' =
     (if count' = 1 then [curr' OR b] else kc (count' - 1) bs (curr' OR b)) @ kc count' bs curr'"

text \<open>
  \<open>bits\<close> is \<open>None\<close> when the caller passes \<open>undefined\<close> (a letter that is not a key of
  the position map): then \<open>bits.length\<close>, read when \<open>kc\<close> starts its loop, is a
  TypeError.
\<close>

definition kCombinations :: "bitmask list option \<Rightarrow> int \<Rightarrow> error + bitmask list" where
  "kCombinations bits count' =
     (if count' \<noteq> 0
      then (case bits of None \<Rightarrow> Inl TypeError | Some bs \<Rightarrow> Inr (kc count' bs 0))
      else Inr [])"

section \<open>flattenCombos\<close>

text \<open>
  The inner function \<open>pc(i, curr)\<close>: \<open>opts\<close> is \<open>posCombos[i]\<close> and the list after it
  holds the groups from \<open>i + 1\<close> on, empty exactly when \<open>i + 1 == posCombos.length\<close>.
\<close>

fun pc :: "bitmask list \<Rightarrow> bitmask list list \<Rightarrow> bitmask \<Rightarrow> bitmask list" where
  "pc opts [] curr' = map (\<lambda>opt. curr' OR opt) opts"
| "pc opts (nxt # rest) curr' = concat (map (\<lambda>opt. pc nxt rest (curr' OR opt)) opts)"

text \<open>The first call is \<open>pc(0, [])\<close>; the empty array converts to the number 0.\<close>

definition flattenCombos :: "bitmask list list \<Rightarrow> bitmask list" where
  "flattenCombos posCombos =
     (case posCombos of [] \<Rightarrow> [] | opts # rest \<Rightarrow> pc opts rest 0)"

section \<open>getMovesForBoard\<close>

text \<open>
  \<open>_.countBy(letters, _.identity)\<close>: an object with one key per distinct letter, created
  when the letter is first met, holding the number of its occurrences. The
  association list keeps the keys in the order of their creation.
\<close>

fun countByAdd :: "char \<Rightarrow> (char \<times> int) list \<Rightarrow> (char \<times> int) list" where
  "countByAdd c [] = [(c, 1)]"
| "countByAdd c (kv # kvs) =
     (if fst kv = c then (fst kv, snd kv + 1) # kvs else kv # countByAdd c kvs)"

definition countBy :: "string \<Rightarrow> (char \<times> int) list" where
  "countBy ls = foldl (\<lambda>obj c. countByAdd c obj) [] ls"

text \<open>
  \<open>for (c in letterCounts)\<close> visits the keys that are array indices (here the digits)
  first, in ascending order, and then the other keys in the order of their creation.
\<close>

definition isIndexKey :: "char \<Rightarrow> bool" where
  "isIndexKey c = (c \<in> set ''0123456789'')"

definition forIn :: "(char \<times> int) list \<Rightarrow> (char \<times> int) list" where
  "forIn obj =
     sort_key (\<lambda>kv. (of_char (fst kv) :: nat)) (filter (\<lambda>kv. isIndexKey (fst kv)) obj)
     @ filter (\<lambda>kv. \<not> isIndexKey (fst kv)) obj"

text \<open>
  The loop that fills \<open>posCombos\<close>: one call of \<open>kCombinations\<close> per key, and the
  first TypeError ends the whole run (nothing catches it).
\<close>

fun posCombosLoop ::
  "(char \<rightharpoonup> bitmask list) \<Rightarrow> (char \<times> int) list \<Rightarrow> error + bitmask list list" where
  "posCombosLoop boardPositionMap [] = Inr []"
| "posCombosLoop boardPositionMap (kv # kvs) =
     (case kCombinations (boardPositionMap (fst kv)) (snd kv) of
        Inl e \<Rightarrow> Inl e
      | Inr combos \<Rightarrow>
          (case posCombosLoop boardPositionMap kvs of
             Inl e \<Rightarrow> Inl e
           | Inr others \<Rightarrow> Inr (combos # others)))"

text \<open>The body of \<open>wordStructs.forEach\<close>: the moves one word adds.\<close>

definition movesForWord ::
  "(char \<rightharpoonup> bitmask list) \<Rightarrow> wordStruct \<Rightarrow> error + rawMove list" where
  "movesForWord boardPositionMap ws =
     (case posCombosLoop boardPositionMap (forIn (countBy (letters ws))) of
        Inl e \<Rightarrow> Inl e
      | Inr posCombos \<Rightarrow> Inr (map (\<lambda>bitmap. (ws, bitmap)) (flattenCombos posCombos)))"

fun movesLoop ::
  "(char \<rightharpoonup> bitmask list) \<Rightarrow> wordStruct list \<Rightarrow> rawMove list \<Rightarrow> error + rawMove list" where
  "movesLoop boardPositionMap [] moves = Inr moves"
| "movesLoop boardPositionMap (ws # rest) moves =
     (case movesForWord boardPositionMap ws of
        Inl e \<Rightarrow> Inl e
      | Inr ms \<Rightarrow> movesLoop boardPositionMap rest (moves @ ms))"

definition getMovesForBoard :: "string \<Rightarrow> wordStruct list \<Rightarrow> error + rawMove list" where
  "getMovesForBoard board wordStructs =
     movesLoop (getBoardPositionMap board) wordStructs []"

section \<open>getTopMoves\<close>

text \<open>
  A scored move, the array the callback of \<open>moves.map\<close> returns; the fields are its
  indices 0 to 7 in this order.
\<close>

record scoredMove =
  protectedDiff :: int
  countDiff :: int
  gameEnder :: int
  newOursBitMask :: bitmask
  newTheirsBitMask :: bitmask
  wordBitMask :: bitmask
  wordStruct :: wordStruct
  vulnerability :: int

definition getVulnerability :: "bitmask \<Rightarrow> int" where
  "getVulnerability bitMask =
     foldl (\<lambda>vulnerability a.
              if fst a AND bitMask \<noteq> 0
              then vulnerability + countBits (snd a AND NOT bitMask)
              else vulnerability) 0 adjacent"

text \<open>
  The callback of \<open>moves.map\<close>. The result of \<open>|\<close> is a signed 32-bit number, which
  \<open>===\<close> compares with the constant. \<open>getTopMoves\<close> also computes the protected mask of
  \<open>oursBitMask\<close> before the loop and never reads it.
\<close>

definition scoreMove :: "lpConfig \<Rightarrow> bitmask \<Rightarrow> bitmask \<Rightarrow> rawMove \<Rightarrow> scoredMove" where
  "scoreMove cfg oursBitMask theirsBitMask move =
     (let theirsProtectedBitMask = getProtectedBitMask theirsBitMask;
          newOurs = (snd move AND NOT theirsProtectedBitMask) OR oursBitMask;
          newOursProtectedBitMask = getProtectedBitMask newOurs;
          newTheirs = theirsBitMask AND NOT newOurs;
          newTheirsProtectedBitMask = getProtectedBitMask newTheirs;
          newOursCount = countBits newOurs;
          newTheirsCount = countBits newTheirs;
          newOursProtectedCount = countBits newOursProtectedBitMask;
          newTheirsProtectedCount = countBits newTheirsProtectedBitMask
      in \<lparr> protectedDiff = newOursProtectedCount - newTheirsProtectedCount,
           countDiff = newOursCount - newTheirsCount,
           gameEnder =
             (if sint (newOurs OR newTheirs) = MAX_BITMASK cfg
              then (if newOursCount \<ge> POSITIONS_TO_WIN cfg then 1 else - 1)
              else 0),
           newOursBitMask = newOurs,
           newTheirsBitMask = newTheirs,
           wordBitMask = snd move,
           wordStruct = fst move,
           vulnerability = getVulnerability newOursProtectedBitMask \<rparr>)"

definition movesScoredForGameState ::
  "lpConfig \<Rightarrow> rawMove list \<Rightarrow> bitmask \<Rightarrow> bitmask \<Rightarrow> scoredMove list" where
  "movesScoredForGameState cfg moves oursBitMask theirsBitMask =
     map (scoreMove cfg oursBitMask theirsBitMask) moves"

subsection \<open>byBestMove and the sort\<close>

text \<open>\<open>x || y\<close> on numbers: \<open>x\<close> unless it is 0.\<close>

definition orElse :: "int \<Rightarrow> int \<Rightarrow> int" where
  "orElse x y = (if x \<noteq> 0 then x else y)"

definition byBestMove :: "scoredMove \<Rightarrow> scoredMove \<Rightarrow> int" where
  "byBestMove a b =
     orElse (gameEnder b - gameEnder a)
       (orElse (protectedDiff b - protectedDiff a)
          (orElse (vulnerability a - vulnerability b)
             (orElse (countDiff b - countDiff a)
                (rank (wordStruct a) - rank (wordStruct b)))))"

text \<open>
  \<open>Array.prototype.sort\<close> with a comparator: the language fixes the result up to the
  order of the elements that compare equal; the model is the stable insertion sort.
\<close>

fun insertMove :: "scoredMove \<Rightarrow> scoredMove list \<Rightarrow> scoredMove list" where
  "insertMove x [] = [x]"
| "insertMove x (y # ys) =
     (if byBestMove x y \<le> 0 then x # y # ys else y # insertMove x ys)"

definition sortMoves :: "scoredMove list \<Rightarrow> scoredMove list" where
  "sortMoves xs = foldr insertMove xs []"

subsection \<open>filterMoves\<close>

text \<open>
  \<open>seen\<close> is a plain object used as a set of word texts. A text that names a property
  every object inherits reads as a truthy value from the start.
\<close>

definition objectPrototypeKeys :: "string list" where
  "objectPrototypeKeys =
     [''constructor'', ''toString'', ''toLocaleString'', ''valueOf'', ''hasOwnProperty'',
      ''isPrototypeOf'', ''propertyIsEnumerable'', ''__proto__'', ''__defineGetter__'',
      ''__defineSetter__'', ''__lookupGetter__'', ''__lookupSetter__'']"

definition seenTruthy :: "string list \<Rightarrow> string \<Rightarrow> bool" where
  "seenTruthy seen w = (w \<in> set seen \<or> w \<in> set objectPrototypeKeys)"

text \<open>The callback of \<open>filter\<close>, run over the list with its two variables as state.\<close>

fun filterLoop :: "int \<Rightarrow> string list \<Rightarrow> scoredMove list \<Rightarrow> scoredMove list" where
  "filterLoop latestScore seen [] = []"
| "filterLoop latestScore seen (move # rest) =
     (if seenTruthy seen (wordText (wordStruct move))
         \<or> protectedDiff move + countDiff move = latestScore
      then filterLoop latestScore seen rest
      else move # filterLoop (protectedDiff move + countDiff move)
                    (wordText (wordStruct move) # seen) rest)"

definition filterMoves :: "scoredMove list \<Rightarrow> scoredMove list" where
  "filterMoves moves = filterLoop 0 [] moves"

subsection \<open>The pipeline\<close>

text \<open>The moves that survive the filter and the cut, before the last \<open>map\<close>.\<close>

definition topScoredMoves ::
  "lpConfig \<Rightarrow> rawMove list \<Rightarrow> bitmask \<Rightarrow> bitmask \<Rightarrow> scoredMove list" where
  "topScoredMoves cfg moves oursBitMask theirsBitMask =
     take 19 (filterMoves (sortMoves
       (movesScoredForGameState cfg moves oursBitMask theirsBitMask)))"

text \<open>What is sent: \<open>[word, wordBitMask, newOursBitMask, newTheirsBitMask, gameEnder]\<close>.\<close>

type_synonym sentMove = "string \<times> bitmask \<times> bitmask \<times> bitmask \<times> int"

definition sendMove :: "scoredMove \<Rightarrow> sentMove" where
  "sendMove move =
     (wordText (wordStruct move), wordBitMask move, newOursBitMask move,
      newTheirsBitMask move, gameEnder move)"

definition getTopMoves ::
  "lpConfig \<Rightarrow> rawMove list \<Rightarrow> bitmask \<Rightarrow> bitmask \<Rightarrow> sentMove list" where
  "getTopMoves cfg moves oursBitMask theirsBitMask =
     map sendMove (topScoredMoves cfg moves oursBitMask theirsBitMask)"

section \<open>The ranking in the words of the specification\<close>

text \<open>
  The tie-break chain as the specification words it: \<open>a\<close> is strictly better than \<open>b\<close>
  when it has the greater \<open>gameEnder\<close>, or the same and the greater \<open>protectedDiff\<close>, or
  the same and the smaller \<open>vulnerability\<close>, or the same and the greater \<open>countDiff\<close>, or
  the same and the smaller commonness rank.
\<close>

definition strictlyBetter :: "scoredMove \<Rightarrow> scoredMove \<Rightarrow> bool" where
  "strictlyBetter a b =
     (gameEnder a > gameEnder b \<or>
      gameEnder a = gameEnder b \<and>
      (protectedDiff a > protectedDiff b \<or>
       protectedDiff a = protectedDiff b \<and>
       (vulnerability a < vulnerability b \<or>
        vulnerability a = vulnerability b \<and>
        (countDiff a > countDiff b \<or>
         countDiff a = countDiff b \<and> rank (wordStruct a) < rank (wordStruct b)))))"

section \<open>The vulnerability in the words of the specification\<close>

text \<open>
  The neighbours of square \<open>i\<close>, and the sum, over each set bit of \<open>bitMask\<close>, of the
  population count of the neighbours of that square outside \<open>claimed\<close>. The squares
  are those of the adjacency table.
\<close>

definition adjacentOf :: "nat \<Rightarrow> bitmask" where
  "adjacentOf i = snd (adjacent ! i)"

definition vulnerabilitySum :: "bitmask \<Rightarrow> bitmask \<Rightarrow> int" where
  "vulnerabilitySum bitMask claimed =
     (\<Sum>i\<leftarrow>[0..<length adjacent].
        if bit bitMask i then countBits (adjacentOf i AND NOT claimed) else 0)"

section \<open>Placements in the words of the specification\<close>

text \<open>The union of a list of bitmasks.\<close>

definition unionOf :: "bitmask list \<Rightarrow> bitmask" where
  "unionOf masks = foldr (OR) masks 0"

text \<open>The indices, counted from \<open>i\<close>, at which the letter \<open>c\<close> occurs in a board.\<close>

fun occurrences :: "nat \<Rightarrow> char \<Rightarrow> string \<Rightarrow> nat list" where
  "occurrences i c [] = []"
| "occurrences i c (d # ds) = (if d = c then [i] else []) @ occurrences (i + 1) c ds"

section \<open>The combinations\<close>

lemma unionOf_Nil: "unionOf [] = 0"
  by (simp add: unionOf_def)

lemma unionOf_Cons: "unionOf (b # bs) = b OR unionOf bs"
  by (simp add: unionOf_def)

lemma filter_subseqs_length_0: "[ys \<leftarrow> subseqs xs. ys = []] = [[]]"
  by (induction xs) (simp_all add: Let_def filter_map comp_def)

lemma length_filter_subseqs:
  "length [ys \<leftarrow> subseqs xs. length ys = k] = length xs choose k"
proof (induction xs arbitrary: k)
  case Nil
  then show ?case by (cases k) auto
next
  case (Cons x xs)
  show ?case
  proof (cases k)
    case 0
    then show ?thesis
      using filter_subseqs_length_0 [of "x # xs"] by simp
  next
    case (Suc j)
    then show ?thesis
      using Cons.IH [of j] Cons.IH [of "Suc j"]
      by (simp add: Let_def filter_map comp_def)
  qed
qed

lemma kc_subseqs:
  "kc (int (Suc k)) bs curr'
     = map (\<lambda>ys. curr' OR unionOf ys) [ys \<leftarrow> subseqs bs. length ys = Suc k]"
proof (induction bs arbitrary: k curr')
  case Nil
  then show ?case by simp
next
  case (Cons b bs)
  show ?case
  proof (cases k)
    case 0
    have "kc 1 (b # bs) curr' = (curr' OR b) # kc 1 bs curr'"
      by simp
    with 0 Cons.IH [of 0 curr'] show ?thesis
      by (simp add: Let_def filter_map comp_def filter_subseqs_length_0
          unionOf_Cons unionOf_Nil)
  next
    case (Suc j)
    have "kc (int (Suc (Suc j))) (b # bs) curr'
        = kc (int (Suc j)) bs (curr' OR b) @ kc (int (Suc (Suc j))) bs curr'"
      by simp
    with Suc Cons.IH [of j "curr' OR b"] Cons.IH [of "Suc j" curr'] show ?thesis
      by (simp add: Let_def filter_map comp_def unionOf_Cons or.assoc)
  qed
qed

lemma kCombinations_subseqs:
  "kCombinations (Some positions) (int k)
     = Inr (if k = 0 then [] else map unionOf [ys \<leftarrow> subseqs positions. length ys = k])"
proof (cases k)
  case 0
  then show ?thesis by (simp add: kCombinations_def)
next
  case (Suc j)
  then show ?thesis
    using kc_subseqs [of j positions 0] by (simp add: kCombinations_def)
qed

subsection \<open>Unions of single bits\<close>

lemma bit_unionOf: "bit (unionOf bs) i \<longleftrightarrow> (\<exists>b\<in>set bs. bit b i)"
  by (induction bs) (auto simp: unionOf_Nil unionOf_Cons bit_or_iff)

lemma single_bit_member:
  assumes "distinct bs" and "\<forall>p\<in>set bs. \<exists>i<32. p = 2 ^ i"
    and "set ys \<subseteq> set bs" and "p \<in> set bs"
  shows "p \<in> set ys \<longleftrightarrow> p AND unionOf ys \<noteq> (0 :: bitmask)"
proof -
  from assms(2,4) obtain i where i: "i < 32" "p = 2 ^ i" by blast
  have "p AND unionOf ys \<noteq> 0 \<longleftrightarrow> bit (unionOf ys) i"
    using i by (simp add: and.commute and_exp_eq_0_iff_not_bit)
  also have "\<dots> \<longleftrightarrow> (\<exists>b\<in>set ys. bit b i)"
    by (rule bit_unionOf)
  also have "\<dots> \<longleftrightarrow> p \<in> set ys"
  proof
    assume "\<exists>b\<in>set ys. bit b i"
    then obtain b where b: "b \<in> set ys" "bit b i" by blast
    with assms(2,3) obtain j where j: "j < 32" "b = 2 ^ j" by blast
    with b have "j = i" by (simp add: bit_exp_iff)
    with b j i show "p \<in> set ys" by simp
  next
    assume "p \<in> set ys"
    with i show "\<exists>b\<in>set ys. bit b i"
      by (auto simp: bit_exp_iff intro!: bexI [of _ p])
  qed
  finally show ?thesis by simp
qed

lemma unionOf_inj:
  assumes "distinct bs" and "\<forall>p\<in>set bs. \<exists>i<32. p = 2 ^ i"
  shows "inj_on unionOf (set (subseqs bs))"
proof (rule inj_onI)
  fix ys zs
  assume ys: "ys \<in> set (subseqs bs)" and zs: "zs \<in> set (subseqs bs)"
    and eq: "unionOf ys = unionOf zs"
  have sub: "set ys \<subseteq> set bs" "set zs \<subseteq> set bs"
    using ys zs subseqs_powset [of bs] by blast+
  have "set ys = set zs"
  proof (rule set_eqI)
    fix p
    show "p \<in> set ys \<longleftrightarrow> p \<in> set zs"
    proof (cases "p \<in> set bs")
      case True
      then show ?thesis
        using single_bit_member [OF assms sub(1) True]
          single_bit_member [OF assms sub(2) True] eq by simp
    next
      case False
      with sub show ?thesis by blast
    qed
  qed
  moreover have "inj_on set (set (subseqs bs))"
    using distinct_set_subseqs [OF assms(1)] by (simp add: distinct_map)
  ultimately show "ys = zs"
    using ys zs by (auto dest: inj_onD)
qed

lemma distinct_subseqs: "distinct bs \<Longrightarrow> distinct (subseqs bs)"
  using distinct_set_subseqs [of bs] by (simp add: distinct_map)

text \<open>
  C3, as amended: for a list of distinct single-bit values and a natural number \<open>k\<close>,
  \<open>kCombinations\<close> returns the empty list when \<open>k\<close> is 0 and when \<open>k\<close> exceeds the
  length of the list; when \<open>k\<close> is at least 1 it returns exactly C(length, k) bitmasks,
  all distinct, each the union of exactly \<open>k\<close> distinct elements of the list.
\<close>

theorem kCombinations_count:
  assumes "distinct positions" and "\<forall>p\<in>set positions. \<exists>i<32. p = 2 ^ i"
  shows "\<exists>masks. kCombinations (Some positions) (int k) = Inr masks \<and>
     (k = 0 \<or> length positions < k \<longrightarrow> masks = []) \<and>
     (1 \<le> k \<longrightarrow> length masks = length positions choose k \<and> distinct masks \<and>
        (\<forall>m\<in>set masks. \<exists>chosen. set chosen \<subseteq> set positions \<and> distinct chosen \<and> length chosen = k \<and>
            m = unionOf chosen))"
proof -
  let ?masks = "if k = 0 then [] else map unionOf [ys \<leftarrow> subseqs positions. length ys = k]"
  have eq: "kCombinations (Some positions) (int k) = Inr ?masks"
    by (rule kCombinations_subseqs)
  have len: "length ?masks = length positions choose k" if "1 \<le> k"
    using that by (simp add: length_filter_subseqs)
  have empty: "?masks = []" if "k = 0 \<or> length positions < k"
    using that length_filter_subseqs [of k positions]
    by (auto simp: binomial_eq_0 simp flip: length_0_conv)
  have dist: "distinct ?masks" if "1 \<le> k"
  proof -
    have "inj_on unionOf (set [ys \<leftarrow> subseqs positions. length ys = k])"
      using unionOf_inj [OF assms] by (rule inj_on_subset) auto
    with that show ?thesis
      by (simp add: distinct_map distinct_subseqs [OF assms(1)])
  qed
  have each: "\<exists>chosen. set chosen \<subseteq> set positions \<and> distinct chosen \<and> length chosen = k \<and>
            m = unionOf chosen" if "1 \<le> k" "m \<in> set ?masks" for m
  proof -
    from that obtain ys where ys: "ys \<in> set (subseqs positions)" "length ys = k" "m = unionOf ys"
      by auto
    have "set ys \<subseteq> set positions"
      using ys(1) subseqs_powset [of positions] by blast
    moreover have "distinct ys"
      using ys(1) assms(1) by (rule subseqs_distinctD)
    ultimately show ?thesis using ys by blast
  qed
  show ?thesis
    using eq len empty dist each by blast
qed

text \<open>
  C3 as stated fails at \<open>k = 0\<close>: C(2, 0) is 1, and the result for \<open>[1, 2]\<close> and 0 is
  empty.
\<close>

theorem kCombinations_zero_counterexample:
  "length (projr (kCombinations (Some [1, 2]) 0)) \<noteq> length [1 :: bitmask, 2] choose 0"
  by (simp add: kCombinations_def)

theorem kCombinations_count_witness:
  "distinct [1, 2, 4, 8 :: bitmask] \<and>
   (1 :: bitmask) = 2 ^ 0 \<and> (2 :: bitmask) = 2 ^ 1 \<and> (4 :: bitmask) = 2 ^ 2 \<and>
   (8 :: bitmask) = 2 ^ 3 \<and>
   (\<exists>masks. kCombinations (Some [1, 2, 4, 8]) (int 2) = Inr masks \<and>
      length masks = length [1, 2, 4, 8 :: bitmask] choose 2 \<and> distinct masks)"
proof -
  have p: "(1 :: bitmask) = 2 ^ 0" "(2 :: bitmask) = 2 ^ 1" "(4 :: bitmask) = 2 ^ 2"
    "(8 :: bitmask) = 2 ^ 3"
    by simp_all
  have "\<exists>i<32. (1 :: bitmask) = 2 ^ i" by (rule exI [of _ 0]) simp
  moreover have "\<exists>i<32. (2 :: bitmask) = 2 ^ i" by (rule exI [of _ 1]) simp
  moreover have "\<exists>i<32. (4 :: bitmask) = 2 ^ i" by (rule exI [of _ 2]) simp
  moreover have "\<exists>i<32. (8 :: bitmask) = 2 ^ i" by (rule exI [of _ 3]) simp
  ultimately have h: "\<forall>p\<in>set [1, 2, 4, 8 :: bitmask]. \<exists>i<32. p = 2 ^ i"
    by simp
  have d: "distinct [1, 2, 4, 8 :: bitmask]"
    by simp
  from kCombinations_count [OF d h, of 2] obtain masks
    where "kCombinations (Some [1, 2, 4, 8]) (int 2) = Inr masks"
      and "length masks = length [1, 2, 4, 8 :: bitmask] choose 2" and "distinct masks"
    by auto
  then have "\<exists>masks. kCombinations (Some [1, 2, 4, 8]) (int 2) = Inr masks \<and>
      length masks = length [1, 2, 4, 8 :: bitmask] choose 2 \<and> distinct masks"
    by blast
  with d p show ?thesis
    by blast
qed

section \<open>The vulnerability\<close>

lemma foldl_cond_sum:
  "foldl (\<lambda>v a. if P a then v + f a else v) (v0 :: int) xs
     = v0 + (\<Sum>a\<leftarrow>xs. if P a then f a else 0)"
  by (induction xs arbitrary: v0) simp_all

lemma length_adjacent: "length adjacent = 25"
  by (simp add: adjacent_def)

lemma fst_adjacent: "\<forall>i\<in>set [0..<25]. fst (adjacent ! i) = 2 ^ i"
  by code_simp

lemma single_bit_and: "i < 32 \<Longrightarrow> (2 ^ i AND m \<noteq> 0) = bit (m :: bitmask) i"
  by (simp add: and.commute and_exp_eq_0_iff_not_bit)

lemma getVulnerability_sum: "getVulnerability m = vulnerabilitySum m m"
proof -
  have "getVulnerability m
      = (\<Sum>a\<leftarrow>adjacent. if fst a AND m \<noteq> 0 then countBits (snd a AND NOT m) else 0)"
    unfolding getVulnerability_def by (simp add: foldl_cond_sum)
  also have "\<dots> = (\<Sum>i\<leftarrow>[0..<length adjacent].
        if fst (adjacent ! i) AND m \<noteq> 0 then countBits (snd (adjacent ! i) AND NOT m) else 0)"
    by (subst (1) map_nth [of adjacent, symmetric]) (simp only: map_map comp_def)
  also have "\<dots> = vulnerabilitySum m m"
    unfolding vulnerabilitySum_def adjacentOf_def length_adjacent
    by (rule arg_cong [where f = sum_list], rule map_cong [OF refl])
       (use fst_adjacent in \<open>simp add: single_bit_and\<close>)
  finally show ?thesis .
qed

lemma foldl_protected_source:
  "bit (foldl (\<lambda>acc a. if P a then acc OR fst a else acc) acc0 xs) i
     \<Longrightarrow> bit acc0 i \<or> (\<exists>a\<in>set xs. P a \<and> bit (fst a) i)"
proof (induction xs arbitrary: acc0)
  case Nil
  then show ?case by simp
next
  case (Cons x xs)
  let ?acc = "if P x then acc0 OR fst x else acc0"
  from Cons.prems have "bit ?acc i \<or> (\<exists>a\<in>set xs. P a \<and> bit (fst a) i)"
    by (intro Cons.IH) simp
  then show ?case
    by (auto simp: bit_or_iff split: if_splits)
qed

lemma getProtectedBitMask_bits:
  assumes "bit (getProtectedBitMask m) i"
  shows "i < length adjacent"
proof -
  from assms obtain a where a: "a \<in> set adjacent" "bit (fst a) i"
    unfolding getProtectedBitMask_def by (auto dest: foldl_protected_source)
  then obtain j where j: "j < 25" "a = adjacent ! j"
    by (auto simp: in_set_conv_nth length_adjacent)
  with fst_adjacent have "fst a = 2 ^ j" by simp
  with a j show ?thesis
    by (simp add: bit_exp_iff length_adjacent)
qed

text \<open>
  A protected square has all its neighbours in the ownership mask, so the sum against
  the ownership mask itself is 0 whatever the mask.
\<close>

lemma protected_neighbours_owned:
  assumes "bit (getProtectedBitMask m) i"
  shows "adjacentOf i AND NOT m = 0"
proof -
  from assms obtain a where a: "a \<in> set adjacent" "snd a AND m = snd a" "bit (fst a) i"
    unfolding getProtectedBitMask_def by (auto dest: foldl_protected_source)
  then obtain j where j: "j < 25" "a = adjacent ! j"
    by (auto simp: in_set_conv_nth length_adjacent)
  with fst_adjacent have "fst a = 2 ^ j" by simp
  with a(3) j have "j = i" by (simp add: bit_exp_iff)
  with j a(2) have "adjacentOf i AND m = adjacentOf i"
    by (simp add: adjacentOf_def)
  then have "adjacentOf i AND NOT m = (adjacentOf i AND m) AND NOT m"
    by simp
  also have "\<dots> = 0"
    by (simp add: and.assoc)
  finally show ?thesis .
qed

lemma sum_list_all_zero: "(\<And>x. x \<in> set xs \<Longrightarrow> f x = (0 :: int)) \<Longrightarrow> sum_list (map f xs) = 0"
  by (induction xs) simp_all

lemma vulnerabilitySum_newOurs_zero: "vulnerabilitySum (getProtectedBitMask m) m = 0"
  unfolding vulnerabilitySum_def
  by (rule sum_list_all_zero) (simp add: protected_neighbours_owned countBits_def)

text \<open>
  C1, as amended: for every move scored by \<open>getTopMoves\<close>, the vulnerability is the
  sum, over each set bit \<open>b\<close> of \<open>newOursProtected\<close>, of the population count of
  \<open>adjacent(b) & ~newOursProtected\<close>: the neighbours of \<open>b\<close> that are not protected
  squares of our side in the resulting state. Every set bit of \<open>newOursProtected\<close> is
  a square of the adjacency table.
\<close>

theorem vulnerability_sum_over_protected:
  "sm \<in> set (movesScoredForGameState cfg moves oursBitMask theirsBitMask) \<Longrightarrow>
   vulnerability sm
     = vulnerabilitySum (getProtectedBitMask (newOursBitMask sm))
         (getProtectedBitMask (newOursBitMask sm)) \<and>
   (\<forall>i. bit (getProtectedBitMask (newOursBitMask sm)) i \<longrightarrow> i < length adjacent)"
  by (auto simp: movesScoredForGameState_def scoreMove_def Let_def getVulnerability_sum
      getProtectedBitMask_bits)

text \<open>
  C1 as stated, with \<open>~newOurs\<close>, fails: playing the squares 0, 1 and 5 on an empty
  board protects square 0, whose two neighbours are ours but not protected. The
  vulnerability is 2, and the sum against \<open>newOurs\<close> is 0.
\<close>

theorem vulnerability_against_newOurs_counterexample:
  "vulnerability (scoreMove \<lparr>MAX_BITMASK = 33554431, POSITIONS_TO_WIN = 13\<rparr> 0 0
       (\<lparr>wordText = ''cab'', letters = ''cab'', rank = 1\<rparr>, 35))
   \<noteq> vulnerabilitySum
       (getProtectedBitMask (newOursBitMask
          (scoreMove \<lparr>MAX_BITMASK = 33554431, POSITIONS_TO_WIN = 13\<rparr> 0 0
             (\<lparr>wordText = ''cab'', letters = ''cab'', rank = 1\<rparr>, 35))))
       (newOursBitMask
          (scoreMove \<lparr>MAX_BITMASK = 33554431, POSITIONS_TO_WIN = 13\<rparr> 0 0
             (\<lparr>wordText = ''cab'', letters = ''cab'', rank = 1\<rparr>, 35)))"
proof -
  have p0: "getProtectedBitMask 0 = 0" by code_simp
  have p: "getProtectedBitMask 35 = 1" by code_simp
  have v: "getVulnerability 1 = 2" by code_simp
  have s: "vulnerabilitySum 1 35 = 0" by code_simp
  show ?thesis by (simp add: scoreMove_def Let_def p0 p v s)
qed

theorem vulnerability_sum_over_protected_witness:
  "scoreMove \<lparr>MAX_BITMASK = 33554431, POSITIONS_TO_WIN = 13\<rparr> 0 0
       (\<lparr>wordText = ''cab'', letters = ''cab'', rank = 1\<rparr>, 35)
     \<in> set (movesScoredForGameState \<lparr>MAX_BITMASK = 33554431, POSITIONS_TO_WIN = 13\<rparr>
              [(\<lparr>wordText = ''cab'', letters = ''cab'', rank = 1\<rparr>, 35)] 0 0)
   \<and> vulnerability (scoreMove \<lparr>MAX_BITMASK = 33554431, POSITIONS_TO_WIN = 13\<rparr> 0 0
         (\<lparr>wordText = ''cab'', letters = ''cab'', rank = 1\<rparr>, 35))
     = vulnerabilitySum 1 1"
proof -
  have h: "scoreMove \<lparr>MAX_BITMASK = 33554431, POSITIONS_TO_WIN = 13\<rparr> 0 0
       (\<lparr>wordText = ''cab'', letters = ''cab'', rank = 1\<rparr>, 35)
     \<in> set (movesScoredForGameState \<lparr>MAX_BITMASK = 33554431, POSITIONS_TO_WIN = 13\<rparr>
              [(\<lparr>wordText = ''cab'', letters = ''cab'', rank = 1\<rparr>, 35)] 0 0)"
    by (simp add: movesScoredForGameState_def)
  have p0: "getProtectedBitMask 0 = 0" by code_simp
  have p: "getProtectedBitMask 35 = 1" by code_simp
  have n: "newOursBitMask (scoreMove \<lparr>MAX_BITMASK = 33554431, POSITIONS_TO_WIN = 13\<rparr> 0 0
       (\<lparr>wordText = ''cab'', letters = ''cab'', rank = 1\<rparr>, 35)) = 35"
    by (simp add: scoreMove_def Let_def p0)
  show ?thesis
    using h vulnerability_sum_over_protected [OF h] by (simp add: n p)
qed

section \<open>The position map\<close>

lemma occurrences_set:
  "set (occurrences i c cs) = {j. i \<le> j \<and> j < i + length cs \<and> cs ! (j - i) = c}"
proof (induction cs arbitrary: i)
  case Nil
  then show ?case by simp
next
  case (Cons d ds)
  have "(i \<le> j \<and> j < i + length (d # ds) \<and> (d # ds) ! (j - i) = c)
      \<longleftrightarrow> (j = i \<and> d = c) \<or> (i + 1 \<le> j \<and> j < i + 1 + length ds \<and> ds ! (j - (i + 1)) = c)"
    for j
  proof (cases "j \<le> i")
    case True
    then show ?thesis by auto
  next
    case False
    then have "j - i = Suc (j - (i + 1))" by simp
    with False show ?thesis by (simp only: nth_Cons_Suc) auto
  qed
  then have "{j. i \<le> j \<and> j < i + length (d # ds) \<and> (d # ds) ! (j - i) = c}
      = (if d = c then {i} else {}) \<union> {j. i + 1 \<le> j \<and> j < i + 1 + length ds \<and> ds ! (j - (i + 1)) = c}"
    by auto
  with Cons.IH [of "i + 1"] show ?case by simp
qed

lemma occurrences_distinct: "distinct (occurrences i c cs)"
proof (induction cs arbitrary: i)
  case Nil
  then show ?case by simp
next
  case (Cons d ds)
  have "i \<notin> set (occurrences (i + 1) c ds)"
    by (simp add: occurrences_set)
  with Cons.IH [of "i + 1"] show ?case by simp
qed

lemma occurrences_length: "length (occurrences i c cs) = count_list cs c"
  by (induction cs arbitrary: i) simp_all

lemma occurrences_Nil_iff: "occurrences i c cs = [] \<longleftrightarrow> c \<notin> set cs"
  by (induction cs arbitrary: i) auto

lemma boardPositionLoop_lookup:
  "boardPositionLoop i cs boardMap c =
     (if c \<in> set cs
      then Some ((case boardMap c of None \<Rightarrow> [] | Some ps \<Rightarrow> ps)
                 @ map (\<lambda>j. 2 ^ j) (occurrences i c cs))
      else boardMap c)"
proof (induction cs arbitrary: i boardMap)
  case Nil
  then show ?case by simp
next
  case (Cons d ds)
  show ?case
    by (simp add: Cons.IH occurrences_Nil_iff split: option.splits)
qed

lemma getBoardPositionMap_lookup:
  "getBoardPositionMap board c =
     (if c \<in> set board then Some (map (\<lambda>j. 2 ^ j) (occurrences 0 c board)) else None)"
  by (simp add: getBoardPositionMap_def boardPositionLoop_lookup)

section \<open>The histogram\<close>

lemma countByAdd_keys:
  "map fst (countByAdd c obj) = (if c \<in> fst ` set obj then map fst obj else map fst obj @ [c])"
  by (induction obj) auto

lemma countByAdd_distinct:
  "distinct (map fst obj) \<Longrightarrow> distinct (map fst (countByAdd c obj))"
  by (simp add: countByAdd_keys)

lemma countByAdd_key_set: "fst ` set (countByAdd c obj) = insert c (fst ` set obj)"
proof -
  have "set (map fst (countByAdd c obj)) = insert c (set (map fst obj))"
    by (simp only: countByAdd_keys) auto
  then show ?thesis by simp
qed

lemma countByAdd_sum: "sum_list (map snd (countByAdd c obj)) = sum_list (map snd obj) + 1"
  by (induction obj) auto

lemma countByAdd_map_of:
  "map_of (countByAdd c obj) d =
     (if d = c then Some (case map_of obj c of None \<Rightarrow> 1 | Some n \<Rightarrow> n + 1) else map_of obj d)"
  by (induction obj) auto

lemma countBy_foldl_distinct:
  "distinct (map fst obj) \<Longrightarrow> distinct (map fst (foldl (\<lambda>obj c. countByAdd c obj) obj ls))"
  by (induction ls arbitrary: obj) (simp_all add: countByAdd_distinct)

lemma countBy_foldl_keys:
  "fst ` set (foldl (\<lambda>obj c. countByAdd c obj) obj ls) = fst ` set obj \<union> set ls"
  by (induction ls arbitrary: obj) (simp_all add: countByAdd_key_set)

lemma countBy_foldl_sum:
  "sum_list (map snd (foldl (\<lambda>obj c. countByAdd c obj) obj ls))
     = sum_list (map snd obj) + int (length ls)"
  by (induction ls arbitrary: obj) (simp_all add: countByAdd_sum)

lemma countBy_foldl_map_of:
  "map_of (foldl (\<lambda>obj c. countByAdd c obj) obj ls) c
     = (if c \<in> set ls
        then Some ((case map_of obj c of None \<Rightarrow> 0 | Some n \<Rightarrow> n) + int (count_list ls c))
        else map_of obj c)"
proof (induction ls arbitrary: obj)
  case Nil
  then show ?case by simp
next
  case (Cons l ls)
  show ?case
    by (cases "map_of obj c") (simp_all add: Cons.IH countByAdd_map_of)
qed

lemma countBy_distinct: "distinct (map fst (countBy ls))"
  by (simp add: countBy_def countBy_foldl_distinct)

lemma countBy_keys: "fst ` set (countBy ls) = set ls"
  by (simp add: countBy_def countBy_foldl_keys)

lemma countBy_sum: "sum_list (map snd (countBy ls)) = int (length ls)"
  by (simp add: countBy_def countBy_foldl_sum)

lemma countBy_map_of:
  "map_of (countBy ls) c = (if c \<in> set ls then Some (int (count_list ls c)) else None)"
  by (simp add: countBy_def countBy_foldl_map_of)

lemma countBy_entry:
  assumes "kv \<in> set (countBy ls)"
  shows "fst kv \<in> set ls \<and> snd kv = int (count_list ls (fst kv))"
proof -
  have "map_of (countBy ls) (fst kv) = Some (snd kv)"
    using map_of_is_SomeI [OF countBy_distinct, of "fst kv" "snd kv" ls] assms by simp
  then show ?thesis
    by (simp add: countBy_map_of split: if_splits)
qed

lemma mset_forIn: "mset (forIn obj) = mset obj"
  by (simp add: forIn_def)

lemma set_forIn: "set (forIn obj) = set obj"
  using mset_forIn [of obj] by (rule mset_eq_setD)

lemma distinct_forIn: "distinct (map fst obj) \<Longrightarrow> distinct (map fst (forIn obj))"
proof -
  have "mset (map fst (forIn obj)) = mset (map fst obj)"
    by (simp add: mset_forIn)
  then have "distinct (map fst (forIn obj)) \<longleftrightarrow> distinct (map fst obj)"
    by (rule mset_eq_imp_distinct_iff)
  then show "distinct (map fst obj) \<Longrightarrow> distinct (map fst (forIn obj))"
    by simp
qed

lemma sum_forIn: "sum_list (map snd (forIn obj)) = sum_list (map snd obj)"
proof -
  have "mset (map snd (forIn obj)) = mset (map snd obj)"
    by (simp add: mset_forIn)
  then show ?thesis
    by (metis sum_mset_sum_list)
qed

section \<open>The loops of getMovesForBoard\<close>

lemma error_is_TypeError: "(e :: error) = TypeError"
  by (cases e) simp

lemma list_all2_exists:
  "(\<And>x. x \<in> set xs \<Longrightarrow> \<exists>y. P x y) \<Longrightarrow> \<exists>ys. list_all2 P xs ys"
proof (induction xs)
  case Nil
  then show ?case by simp
next
  case (Cons x xs)
  then obtain y ys where "P x y" "list_all2 P xs ys"
    by (metis list.set_intros(1,2))
  then have "list_all2 P (x # xs) (y # ys)" by simp
  then show ?case ..
qed

lemma posCombosLoop_Inr_iff:
  "posCombosLoop boardPositionMap kvs = Inr groups \<longleftrightarrow>
   list_all2 (\<lambda>kv g. kCombinations (boardPositionMap (fst kv)) (snd kv) = Inr g) kvs groups"
proof (induction kvs arbitrary: groups)
  case Nil
  then show ?case by auto
next
  case (Cons kv kvs)
  show ?case
    by (cases groups) (auto simp: Cons.IH [symmetric] list_all2_Cons1 split: sum.splits)
qed

lemma pc_member:
  "m \<in> set (pc opts rest curr') \<Longrightarrow>
   \<exists>picks. list_all2 (\<lambda>p g. p \<in> set g) picks (opts # rest) \<and> m = curr' OR unionOf picks"
proof (induction opts rest curr' arbitrary: m rule: pc.induct)
  case (1 opts curr')
  then obtain opt where "opt \<in> set opts" "m = curr' OR opt" by auto
  then have "list_all2 (\<lambda>p g. p \<in> set g) [opt] [opts] \<and> m = curr' OR unionOf [opt]"
    by (simp add: unionOf_def)
  then show ?case by blast
next
  case (2 opts nxt rest curr')
  from "2.prems" obtain opt where opt: "opt \<in> set opts" "m \<in> set (pc nxt rest (curr' OR opt))"
    by auto
  from "2.IH" [OF this] obtain picks
    where picks: "list_all2 (\<lambda>p g. p \<in> set g) picks (nxt # rest)"
      "m = (curr' OR opt) OR unionOf picks"
    by blast
  with opt(1) have "list_all2 (\<lambda>p g. p \<in> set g) (opt # picks) (opts # nxt # rest)
      \<and> m = curr' OR unionOf (opt # picks)"
    by (simp add: unionOf_def or.assoc)
  then show ?case by blast
qed

lemma flattenCombos_member:
  assumes "m \<in> set (flattenCombos posCombos)"
  shows "\<exists>picks. list_all2 (\<lambda>p g. p \<in> set g) picks posCombos \<and> m = unionOf picks"
proof (cases posCombos)
  case Nil
  with assms show ?thesis by (simp add: flattenCombos_def)
next
  case (Cons opts rest)
  with assms have "m \<in> set (pc opts rest 0)" by (simp add: flattenCombos_def)
  from pc_member [OF this] Cons show ?thesis by simp
qed

lemma flattenCombos_empty_group:
  assumes "[] \<in> set posCombos"
  shows "flattenCombos posCombos = []"
proof (rule ccontr)
  assume "flattenCombos posCombos \<noteq> []"
  then obtain m where "m \<in> set (flattenCombos posCombos)"
    by (cases "flattenCombos posCombos") auto
  from flattenCombos_member [OF this] obtain picks
    where "list_all2 (\<lambda>p g. p \<in> set g) picks posCombos" by blast
  with assms show False
    by (auto simp: list_all2_conv_all_nth in_set_conv_nth)
qed

lemma movesLoop_Inr_iff:
  "movesLoop boardPositionMap wordStructs moves = Inr result \<longleftrightarrow>
   (\<exists>mss. list_all2 (\<lambda>ws ms. movesForWord boardPositionMap ws = Inr ms) wordStructs mss \<and>
      result = moves @ concat mss)"
proof (induction wordStructs arbitrary: moves)
  case Nil
  then show ?case by auto
next
  case (Cons ws rest)
  show ?case
  proof (cases "movesForWord boardPositionMap ws")
    case (Inl e)
    then show ?thesis by (auto simp: list_all2_Cons1)
  next
    case (Inr ms)
    then show ?thesis by (auto simp: Cons.IH list_all2_Cons1)
  qed
qed

lemma kCombinations_defined:
  "bits \<noteq> None \<Longrightarrow> \<exists>g. kCombinations bits n = Inr g"
  by (auto simp: kCombinations_def)

lemma kCombinations_undefined:
  "n \<noteq> 0 \<Longrightarrow> kCombinations None n = Inl TypeError"
  by (simp add: kCombinations_def)

lemma posCombosLoop_TypeError:
  "kv \<in> set kvs \<Longrightarrow> kCombinations (boardPositionMap (fst kv)) (snd kv) = Inl TypeError
     \<Longrightarrow> posCombosLoop boardPositionMap kvs = Inl TypeError"
proof (induction kvs)
  case Nil
  then show ?case by simp
next
  case (Cons a kvs)
  then show ?case
    by (auto simp: error_is_TypeError split: sum.splits)
qed

lemma movesForWord_absent_letter:
  assumes "c \<in> set (letters ws)" and "c \<notin> set board"
  shows "movesForWord (getBoardPositionMap board) ws = Inl TypeError"
proof -
  from assms(1) obtain n where kv: "(c, n) \<in> set (countBy (letters ws))"
    using countBy_keys [of "letters ws"] by force
  with countBy_entry [OF this] assms(1) have "n \<noteq> 0"
    by (simp add: count_list_0_iff)
  with assms(2) have "kCombinations (getBoardPositionMap board (fst (c, n))) (snd (c, n)) = Inl TypeError"
    by (simp add: getBoardPositionMap_lookup kCombinations_undefined)
  moreover from kv have "(c, n) \<in> set (forIn (countBy (letters ws)))"
    by (simp add: set_forIn)
  ultimately have "posCombosLoop (getBoardPositionMap board) (forIn (countBy (letters ws))) = Inl TypeError"
    by (rule posCombosLoop_TypeError [rotated])
  then show ?thesis by (simp add: movesForWord_def)
qed

lemma movesLoop_TypeError:
  "ws \<in> set wordStructs \<Longrightarrow> movesForWord boardPositionMap ws = Inl TypeError
     \<Longrightarrow> movesLoop boardPositionMap wordStructs moves = Inl TypeError"
proof (induction wordStructs arbitrary: moves)
  case Nil
  then show ?case by simp
next
  case (Cons a wordStructs)
  then show ?case
    by (auto simp: error_is_TypeError split: sum.splits)
qed

lemma movesForWord_present_letters:
  assumes "set (letters ws) \<subseteq> set board"
  shows "\<exists>ms. movesForWord (getBoardPositionMap board) ws = Inr ms"
proof -
  let ?kvs = "forIn (countBy (letters ws))"
  have "\<exists>g. kCombinations (getBoardPositionMap board (fst kv)) (snd kv) = Inr g"
    if "kv \<in> set ?kvs" for kv
  proof -
    from that have "fst kv \<in> set (letters ws)"
      using countBy_keys [of "letters ws"] by (auto simp: set_forIn)
    with assms have "getBoardPositionMap board (fst kv) \<noteq> None"
      by (auto simp: getBoardPositionMap_lookup)
    then show ?thesis by (rule kCombinations_defined)
  qed
  then have "\<exists>groups. list_all2 (\<lambda>kv g. kCombinations (getBoardPositionMap board (fst kv)) (snd kv) = Inr g) ?kvs groups"
    by (rule list_all2_exists)
  then show ?thesis
    by (auto simp: movesForWord_def posCombosLoop_Inr_iff [symmetric])
qed

section \<open>Words that cannot be placed\<close>

lemma kCombinations_short:
  "length positions < k \<Longrightarrow> kCombinations (Some positions) (int k) = Inr []"
  using length_filter_subseqs [of k positions]
  by (simp add: kCombinations_subseqs binomial_eq_0)

lemma movesForWord_fst:
  "movesForWord boardPositionMap ws = Inr ms \<Longrightarrow> mv \<in> set ms \<Longrightarrow> fst mv = ws"
  by (auto simp: movesForWord_def split: sum.splits)

lemma movesForWord_insufficient:
  assumes "set (letters ws) \<subseteq> set board"
    and "count_list board c < count_list (letters ws) c"
  shows "movesForWord (getBoardPositionMap board) ws = Inr []"
proof -
  let ?kvs = "forIn (countBy (letters ws))"
  let ?n = "count_list (letters ws) c"
  from assms(2) have c: "c \<in> set (letters ws)"
    using count_list_0_iff [of "letters ws" c] by auto
  then obtain n where "(c, n) \<in> set (countBy (letters ws))"
    using countBy_keys [of "letters ws"] by force
  with countBy_entry [OF this] have kv: "(c, int ?n) \<in> set ?kvs"
    by (simp add: set_forIn)
  from c assms(1) have "getBoardPositionMap board c
      = Some (map (\<lambda>j. 2 ^ j) (occurrences 0 c board))"
    by (auto simp: getBoardPositionMap_lookup)
  with assms(2) have k: "kCombinations (getBoardPositionMap board c) (int ?n) = Inr []"
    by (simp add: kCombinations_short occurrences_length)
  from movesForWord_present_letters [OF assms(1)] obtain groups
    where groups: "posCombosLoop (getBoardPositionMap board) ?kvs = Inr groups"
    by (auto simp: movesForWord_def split: sum.splits)
  from kv obtain i where i: "i < length ?kvs" "?kvs ! i = (c, int ?n)"
    by (auto simp: in_set_conv_nth)
  with groups k have "i < length groups" "groups ! i = []"
    by (auto simp: posCombosLoop_Inr_iff list_all2_conv_all_nth)
  then have "[] \<in> set groups"
    by (auto simp: in_set_conv_nth)
  with groups show ?thesis
    by (simp add: movesForWord_def flattenCombos_empty_group)
qed

text \<open>
  Too few copies of a letter: when every letter of every word occurs on the board, move
  generation raises no fault, and a word that needs more copies of some letter than
  the board holds gets no RawMove. It is left out of the result silently.
\<close>

lemma insufficient_copies_no_moves:
  assumes "\<forall>ws\<in>set wordStructs. set (letters ws) \<subseteq> set board"
  shows "\<exists>moves. getMovesForBoard board wordStructs = Inr moves \<and>
     (\<forall>ws\<in>set wordStructs.
        (\<exists>c. count_list board c < count_list (letters ws) c) \<longrightarrow> ws \<notin> fst ` set moves)"
proof -
  let ?bpm = "getBoardPositionMap board"
  from assms have "\<exists>ms. movesForWord ?bpm ws = Inr ms" if "ws \<in> set wordStructs" for ws
    using that by (simp add: movesForWord_present_letters)
  then obtain mss where mss: "list_all2 (\<lambda>ws ms. movesForWord ?bpm ws = Inr ms) wordStructs mss"
    using list_all2_exists [of wordStructs "\<lambda>ws ms. movesForWord ?bpm ws = Inr ms"] by blast
  then have res: "getMovesForBoard board wordStructs = Inr (concat mss)"
    unfolding getMovesForBoard_def movesLoop_Inr_iff by auto
  have "ws \<notin> fst ` set (concat mss)"
    if ws: "ws \<in> set wordStructs" and c: "count_list board c < count_list (letters ws) c" for ws c
  proof
    assume "ws \<in> fst ` set (concat mss)"
    then obtain mv ms where mv: "mv \<in> set ms" "ms \<in> set mss" "fst mv = ws"
      by auto
    then obtain i where i: "i < length mss" "mss ! i = ms"
      by (auto simp: in_set_conv_nth)
    with mss have m: "movesForWord ?bpm (wordStructs ! i) = Inr ms"
      by (auto simp: list_all2_conv_all_nth)
    have "wordStructs ! i = ws"
      using movesForWord_fst [OF m mv(1)] mv(3) by simp
    with m movesForWord_insufficient [OF _ c] assms ws mv(1) show False
      by auto
  qed
  with res show ?thesis
    by blast
qed

text \<open>
  No copy of a letter: the lookup in the position map is \<open>undefined\<close>, \<open>kCombinations\<close>
  reads its \<open>length\<close>, and the TypeError ends move generation for the whole word list,
  whatever the other words are.
\<close>

lemma absent_letter_TypeError:
  assumes "ws \<in> set wordStructs" and "\<not> set (letters ws) \<subseteq> set board"
  shows "getMovesForBoard board wordStructs = Inl TypeError"
proof -
  from assms(2) obtain c where "c \<in> set (letters ws)" "c \<notin> set board"
    by auto
  with assms(1) show ?thesis
    by (simp add: getMovesForBoard_def movesLoop_TypeError movesForWord_absent_letter)
qed

lemmas moves_eval = getMovesForBoard_def getBoardPositionMap_def movesForWord_def countBy_def
  forIn_def isIndexKey_def kCombinations_def flattenCombos_def

text \<open>
  C2: a word with a letter that occurs nowhere on the board should raise no fault and
  add no RawMove. The code does otherwise. On the board \<open>abcb\<close>, which has no \<open>t\<close>,
  the word \<open>cat\<close> ends move generation in a TypeError, alone or after the word \<open>cab\<close>,
  and the two RawMoves that \<open>cab\<close> has on its own are lost with it.
\<close>

theorem absent_letter_faults_whole_run:
  "getMovesForBoard ''abcb'' [\<lparr>wordText = ''cat'', letters = ''cat'', rank = 2\<rparr>]
     = Inl TypeError \<and>
   getMovesForBoard ''abcb''
       [\<lparr>wordText = ''cab'', letters = ''cab'', rank = 1\<rparr>,
        \<lparr>wordText = ''cat'', letters = ''cat'', rank = 2\<rparr>]
     = Inl TypeError \<and>
   getMovesForBoard ''abcb'' [\<lparr>wordText = ''cab'', letters = ''cab'', rank = 1\<rparr>]
     = Inr [(\<lparr>wordText = ''cab'', letters = ''cab'', rank = 1\<rparr>, 7),
            (\<lparr>wordText = ''cab'', letters = ''cab'', rank = 1\<rparr>, 13)]"
  by (simp add: moves_eval)

section \<open>The placements of a word\<close>

lemma countBits_card: "countBits x = int (card {i. bit x i})"
proof -
  have "{i. bit x i} = set (filter (bit x) [0..<32])"
    using bit_imp_le_length [of x] by auto
  moreover have "distinct (filter (bit x) [0..<32])"
    by simp
  ultimately show ?thesis
    by (simp only: countBits_def distinct_card)
qed

lemma subseqs_map: "subseqs (map f xs) = map (map f) (subseqs xs)"
  by (induction xs) (simp_all add: Let_def)

lemma unionOf_append: "unionOf (xs @ ys) = unionOf xs OR unionOf ys"
  by (induction xs) (simp_all add: unionOf_Nil unionOf_Cons or.assoc)

lemma bit_unionOf_powers:
  "\<forall>j\<in>set js. j < 32 \<Longrightarrow> bit (unionOf (map (\<lambda>j. 2 ^ j) js) :: bitmask) i \<longleftrightarrow> i \<in> set js"
  by (auto simp: bit_unionOf bit_exp_iff)

lemma pick_of_letter:
  assumes "kCombinations (getBoardPositionMap board c) n = Inr g" and "p \<in> set g" and "1 \<le> n"
  shows "\<exists>js. distinct js \<and> set js \<subseteq> {j. j < length board \<and> board ! j = c} \<and>
           int (length js) = n \<and> p = unionOf (map (\<lambda>j. 2 ^ j) js)"
proof -
  let ?occ = "occurrences 0 c board"
  from assms(3) obtain k where k: "n = int (Suc k)"
    by (intro that [of "nat (n - 1)"]) simp
  from assms(1,3) have "getBoardPositionMap board c \<noteq> None"
    by (auto simp: kCombinations_def split: option.splits)
  then have "getBoardPositionMap board c = Some (map (\<lambda>j. 2 ^ j) ?occ)"
    by (simp add: getBoardPositionMap_lookup split: if_splits)
  with assms(1) k have "g = map unionOf [ys \<leftarrow> subseqs (map (\<lambda>j. 2 ^ j) ?occ). length ys = Suc k]"
    using kCombinations_subseqs [of "map (\<lambda>j. 2 ^ j) ?occ" "Suc k"] by simp
  with assms(2) obtain js where js: "js \<in> set (subseqs ?occ)" "length js = Suc k"
      "p = unionOf (map (\<lambda>j. 2 ^ j) js)"
    by (auto simp: subseqs_map)
  have "distinct js"
    using js(1) occurrences_distinct by (rule subseqs_distinctD)
  moreover have "set js \<subseteq> {j. j < length board \<and> board ! j = c}"
    using js(1) subseqs_powset [of ?occ] occurrences_set [of 0 c board] by auto
  ultimately show ?thesis using js k by auto
qed

lemma picks_combine:
  "distinct (map fst kvs) \<Longrightarrow>
   list_all2 (\<lambda>kv p. \<exists>js. distinct js \<and>
           set js \<subseteq> {j. j < length (board :: string) \<and> board ! j = fst kv} \<and>
           int (length js) = snd kv \<and> p = unionOf (map (\<lambda>j. 2 ^ j) js)) kvs picks \<Longrightarrow>
   \<exists>js. distinct js \<and> set js \<subseteq> {j. j < length board \<and> board ! j \<in> fst ` set kvs} \<and>
           int (length js) = sum_list (map snd kvs) \<and>
           unionOf picks = unionOf (map (\<lambda>j. 2 ^ j) js)"
proof (induction kvs arbitrary: picks)
  case Nil
  then have "picks = []" by simp
  then have "distinct ([] :: nat list) \<and>
      set [] \<subseteq> {j. j < length board \<and> board ! j \<in> fst ` set ([] :: (char \<times> int) list)} \<and>
      int (length ([] :: nat list)) = sum_list (map snd ([] :: (char \<times> int) list)) \<and>
      unionOf picks = unionOf (map (\<lambda>j. 2 ^ j) ([] :: nat list))"
    by simp
  then show ?case by (rule exI)
next
  case (Cons kv kvs)
  from Cons.prems(2) obtain p rest js1 where picks: "picks = p # rest"
    and js1: "distinct js1" "set js1 \<subseteq> {j. j < length board \<and> board ! j = fst kv}"
      "int (length js1) = snd kv" "p = unionOf (map (\<lambda>j. 2 ^ j) js1)"
    and rest: "list_all2 (\<lambda>kv p. \<exists>js. distinct js \<and>
           set js \<subseteq> {j. j < length board \<and> board ! j = fst kv} \<and>
           int (length js) = snd kv \<and> p = unionOf (map (\<lambda>j. 2 ^ j) js)) kvs rest"
    unfolding list_all2_Cons1 by blast
  from Cons.prems(1) have d: "distinct (map fst kvs)" and n: "fst kv \<notin> fst ` set kvs"
    by simp_all
  from Cons.IH [OF d rest] obtain js2 where js2: "distinct js2"
      "set js2 \<subseteq> {j. j < length board \<and> board ! j \<in> fst ` set kvs}"
      "int (length js2) = sum_list (map snd kvs)"
      "unionOf rest = unionOf (map (\<lambda>j. 2 ^ j) js2)"
    by blast
  have "j \<notin> set js2" if "j \<in> set js1" for j
  proof
    assume "j \<in> set js2"
    with js2(2) have "board ! j \<in> fst ` set kvs" by (simp add: subset_iff)
    moreover from that js1(2) have "board ! j = fst kv" by (simp add: subset_iff)
    ultimately show False using n by simp
  qed
  then have "set js1 \<inter> set js2 = {}" by (simp add: disjoint_iff)
  with js1(1) js2(1) have 1: "distinct (js1 @ js2)" by simp
  have 2: "set (js1 @ js2) \<subseteq> {j. j < length board \<and> board ! j \<in> fst ` set (kv # kvs)}"
  proof
    fix j
    assume "j \<in> set (js1 @ js2)"
    then consider "j \<in> set js1" | "j \<in> set js2" by auto
    then show "j \<in> {j. j < length board \<and> board ! j \<in> fst ` set (kv # kvs)}"
    proof cases
      case 1
      with js1(2) show ?thesis by (simp add: subset_iff)
    next
      case 2
      with js2(2) show ?thesis by (simp add: subset_iff)
    qed
  qed
  from js1(3) js2(3) have 3: "int (length (js1 @ js2)) = sum_list (map snd (kv # kvs))"
    by simp
  from js1(4) js2(4) picks
  have 4: "unionOf picks = unionOf (map (\<lambda>j. 2 ^ j) (js1 @ js2))"
    by (simp add: unionOf_append unionOf_Cons)
  from 1 2 3 4 show ?case by blast
qed

lemma placement_of_word:
  assumes "posCombosLoop (getBoardPositionMap board) (forIn (countBy ls)) = Inr groups"
    and "m \<in> set (flattenCombos groups)"
  shows "\<exists>js. distinct js \<and> set js \<subseteq> {j. j < length board \<and> board ! j \<in> set ls} \<and>
           length js = length ls \<and> m = unionOf (map (\<lambda>j. 2 ^ j) js)"
proof -
  let ?kvs = "forIn (countBy ls)"
  let ?ok = "\<lambda>kv p. \<exists>js. distinct js \<and> set js \<subseteq> {j. j < length board \<and> board ! j = fst kv} \<and>
           int (length js) = snd kv \<and> p = unionOf (map (\<lambda>j. 2 ^ j) js)"
  from flattenCombos_member [OF assms(2)] obtain picks
    where picks: "list_all2 (\<lambda>p g. p \<in> set g) picks groups" "m = unionOf picks"
    by blast
  from assms(1) have groups:
    "list_all2 (\<lambda>kv g. kCombinations (getBoardPositionMap board (fst kv)) (snd kv) = Inr g) ?kvs groups"
    by (simp add: posCombosLoop_Inr_iff)
  have len: "length ?kvs = length groups" "length picks = length groups"
    using groups picks(1) by (simp_all add: list_all2_lengthD)
  have "?ok (?kvs ! i) (picks ! i)" if "i < length ?kvs" for i
  proof -
    from that have "?kvs ! i \<in> set (countBy ls)"
      using set_forIn [of "countBy ls"] nth_mem by blast
    from countBy_entry [OF this] have "1 \<le> snd (?kvs ! i)"
      using count_list_0_iff [of ls "fst (?kvs ! i)"] by auto
    moreover from groups that
    have "kCombinations (getBoardPositionMap board (fst (?kvs ! i))) (snd (?kvs ! i)) = Inr (groups ! i)"
      by (simp add: list_all2_conv_all_nth)
    moreover from picks(1) that len have "picks ! i \<in> set (groups ! i)"
      by (simp add: list_all2_conv_all_nth)
    ultimately show ?thesis
      using pick_of_letter by blast
  qed
  with len have "list_all2 ?ok ?kvs picks"
    by (simp add: list_all2_conv_all_nth)
  moreover have "distinct (map fst ?kvs)"
    by (simp add: distinct_forIn countBy_distinct)
  ultimately obtain js where js: "distinct js"
      "set js \<subseteq> {j. j < length board \<and> board ! j \<in> fst ` set ?kvs}"
      "int (length js) = sum_list (map snd ?kvs)"
      "unionOf picks = unionOf (map (\<lambda>j. 2 ^ j) js)"
    using picks_combine [of ?kvs board picks] by blast
  have "fst ` set ?kvs = set ls"
    by (simp add: set_forIn countBy_keys)
  moreover have "sum_list (map snd ?kvs) = int (length ls)"
    by (simp add: sum_forIn countBy_sum)
  ultimately show ?thesis
    using js picks(2) by auto
qed

text \<open>
  C7, as amended: on a board of at most 32 squares, the placement bitmask of every
  RawMove that move generation produces for a word has exactly as many bits set as
  the word has letters (counted in the bitmask and by \<open>countBits\<close>), and every set bit
  lies at a position below the board size. The letters of a word are its letter
  sequence, the second entry of the word's array.
\<close>

theorem placement_bits:
  assumes "length board \<le> 32"
    and "getMovesForBoard board wordStructs = Inr moves"
    and "(ws, bitmap) \<in> set moves"
  shows "card {i. bit bitmap i} = length (letters ws) \<and>
         countBits bitmap = int (length (letters ws)) \<and>
         (\<forall>i. bit bitmap i \<longrightarrow> i < length board)"
proof -
  let ?bpm = "getBoardPositionMap board"
  from assms(2) obtain mss
    where mss: "list_all2 (\<lambda>ws ms. movesForWord ?bpm ws = Inr ms) wordStructs mss"
      "moves = concat mss"
    by (auto simp: getMovesForBoard_def movesLoop_Inr_iff)
  with assms(3) obtain ms where ms: "(ws, bitmap) \<in> set ms" "ms \<in> set mss"
    by auto
  then obtain i where "i < length mss" "mss ! i = ms"
    by (auto simp: in_set_conv_nth)
  with mss(1) have m: "movesForWord ?bpm (wordStructs ! i) = Inr ms"
    by (auto simp: list_all2_conv_all_nth)
  have w: "wordStructs ! i = ws"
    using movesForWord_fst [OF m ms(1)] by simp
  from m ms(1) w obtain groups
    where "posCombosLoop ?bpm (forIn (countBy (letters ws))) = Inr groups"
      "bitmap \<in> set (flattenCombos groups)"
    by (auto simp: movesForWord_def split: sum.splits)
  from placement_of_word [OF this] obtain js where js: "distinct js"
      "set js \<subseteq> {j. j < length board \<and> board ! j \<in> set (letters ws)}"
      "length js = length (letters ws)" "bitmap = unionOf (map (\<lambda>j. 2 ^ j) js)"
    by blast
  from js(2) assms(1) have "\<forall>j\<in>set js. j < 32" by auto
  then have bits: "{i. bit bitmap i} = set js"
    using js(4) by (simp add: bit_unionOf_powers)
  then have card: "card {i. bit bitmap i} = length (letters ws)"
    using js(1,3) by (simp add: distinct_card)
  then have "countBits bitmap = int (length (letters ws))"
    by (simp add: countBits_card)
  moreover have "\<forall>i. bit bitmap i \<longrightarrow> i < length board"
    using bits js(2) by auto
  ultimately show ?thesis using card by simp
qed

text \<open>
  C7 as stated, for every board, fails beyond 32 squares: on a board of 33 squares
  with its only \<open>a\<close> on the last one, the position \<open>Math.pow(2, 32)\<close> is lost by \<open>|\<close>, and
  the word \<open>a\<close> gets a RawMove whose bitmask has no bit set.
\<close>

theorem placement_bits_wide_board_counterexample:
  "getMovesForBoard ''bbbbbbbbbbbbbbbbbbbbbbbbbbbbbbbba''
       [\<lparr>wordText = ''a'', letters = ''a'', rank = 1\<rparr>]
     = Inr [(\<lparr>wordText = ''a'', letters = ''a'', rank = 1\<rparr>, 0)]
   \<and> card {i. bit (0 :: bitmask) i}
       \<noteq> length (letters \<lparr>wordText = ''a'', letters = ''a'', rank = 1\<rparr>)
   \<and> countBits 0 \<noteq> int (length (letters \<lparr>wordText = ''a'', letters = ''a'', rank = 1\<rparr>))"
proof -
  have "getBoardPositionMap ''bbbbbbbbbbbbbbbbbbbbbbbbbbbbbbbba'' CHR ''a'' = Some [0]"
    by (simp add: getBoardPositionMap_lookup)
  then have "getMovesForBoard ''bbbbbbbbbbbbbbbbbbbbbbbbbbbbbbbba''
       [\<lparr>wordText = ''a'', letters = ''a'', rank = 1\<rparr>]
     = Inr [(\<lparr>wordText = ''a'', letters = ''a'', rank = 1\<rparr>, 0)]"
    by (simp add: getMovesForBoard_def movesForWord_def countBy_def
      forIn_def isIndexKey_def kCombinations_def flattenCombos_def)
  moreover have "countBits 0 = 0"
    by (simp add: countBits_def)
  ultimately show ?thesis by simp
qed

theorem placement_bits_witness:
  "length ''abcb'' \<le> 32 \<and>
   getMovesForBoard ''abcb'' [\<lparr>wordText = ''cab'', letters = ''cab'', rank = 1\<rparr>]
     = Inr [(\<lparr>wordText = ''cab'', letters = ''cab'', rank = 1\<rparr>, 7),
            (\<lparr>wordText = ''cab'', letters = ''cab'', rank = 1\<rparr>, 13)] \<and>
   (\<lparr>wordText = ''cab'', letters = ''cab'', rank = 1\<rparr>, 13)
     \<in> set [(\<lparr>wordText = ''cab'', letters = ''cab'', rank = 1\<rparr>, 7),
            (\<lparr>wordText = ''cab'', letters = ''cab'', rank = 1\<rparr>, 13 :: bitmask)] \<and>
   card {i. bit (13 :: bitmask) i}
     = length (letters \<lparr>wordText = ''cab'', letters = ''cab'', rank = 1\<rparr>) \<and>
   countBits 13 = int (length (letters \<lparr>wordText = ''cab'', letters = ''cab'', rank = 1\<rparr>)) \<and>
   \<not> bit (13 :: bitmask) (length ''abcb'')"
proof -
  have 1: "length ''abcb'' \<le> 32" by simp
  have 2: "getMovesForBoard ''abcb'' [\<lparr>wordText = ''cab'', letters = ''cab'', rank = 1\<rparr>]
     = Inr [(\<lparr>wordText = ''cab'', letters = ''cab'', rank = 1\<rparr>, 7),
            (\<lparr>wordText = ''cab'', letters = ''cab'', rank = 1\<rparr>, 13)]"
    by (simp add: moves_eval)
  have 3: "(\<lparr>wordText = ''cab'', letters = ''cab'', rank = 1\<rparr>, 13)
     \<in> set [(\<lparr>wordText = ''cab'', letters = ''cab'', rank = 1\<rparr>, 7),
            (\<lparr>wordText = ''cab'', letters = ''cab'', rank = 1\<rparr>, 13 :: bitmask)]"
    by simp
  from 1 2 3 placement_bits [OF 1 2 3] show ?thesis
    by blast
qed

section \<open>Scenario B\<close>

text \<open>
  C8: for the board \<open>abcb\<close> the position map is \<open>{a: [1], b: [2, 8], c: [4]}\<close>, and for a
  word with the letters \<open>cab\<close> move generation produces exactly two RawMoves, with the
  placement bitmasks 7 and 13.
\<close>

theorem scenario_B:
  "getBoardPositionMap ''abcb''
     = [CHR ''a'' \<mapsto> [1], CHR ''b'' \<mapsto> [2, 8], CHR ''c'' \<mapsto> [4]] \<and>
   getMovesForBoard ''abcb'' [\<lparr>wordText = t, letters = ''cab'', rank = r\<rparr>]
     = Inr [(\<lparr>wordText = t, letters = ''cab'', rank = r\<rparr>, 7),
            (\<lparr>wordText = t, letters = ''cab'', rank = r\<rparr>, 13)]"
  by (auto simp add: moves_eval fun_upd_def)

section \<open>The comparator and the sort\<close>

lemma byBestMove_neg_iff: "byBestMove a b < 0 \<longleftrightarrow> strictlyBetter a b"
  by (auto simp: byBestMove_def orElse_def strictlyBetter_def)

lemma byBestMove_pos_iff: "byBestMove a b > 0 \<longleftrightarrow> strictlyBetter b a"
  by (auto simp: byBestMove_def orElse_def strictlyBetter_def)

lemma strictlyBetter_trans_le:
  "\<not> strictlyBetter b a \<Longrightarrow> \<not> strictlyBetter c b \<Longrightarrow> \<not> strictlyBetter c a"
  unfolding strictlyBetter_def by linarith

lemma set_insertMove: "set (insertMove x ys) = insert x (set ys)"
  by (induction ys) auto

lemma sorted_insertMove:
  "sorted_wrt (\<lambda>a b. \<not> strictlyBetter b a) ys \<Longrightarrow>
   sorted_wrt (\<lambda>a b. \<not> strictlyBetter b a) (insertMove x ys)"
proof (induction ys)
  case Nil
  then show ?case by simp
next
  case (Cons y ys)
  show ?case
  proof (cases "byBestMove x y \<le> 0")
    case True
    then have xy: "\<not> strictlyBetter y x"
      using byBestMove_pos_iff [of x y] by simp
    have "\<not> strictlyBetter z x" if "z \<in> set ys" for z
      using Cons.prems that xy strictlyBetter_trans_le [of y x z] by auto
    with True xy Cons.prems show ?thesis by auto
  next
    case False
    then have "\<not> strictlyBetter x y"
      using byBestMove_neg_iff [of x y] byBestMove_pos_iff[of x y]
      by (auto simp: strictlyBetter_def)
    with False Cons show ?thesis by (auto simp: set_insertMove)
  qed
qed

lemma sorted_sortMoves: "sorted_wrt (\<lambda>a b. \<not> strictlyBetter b a) (sortMoves xs)"
  unfolding sortMoves_def by (induction xs) (simp_all add: sorted_insertMove)

lemma set_sortMoves: "set (sortMoves xs) = set xs"
  unfolding sortMoves_def by (induction xs) (simp_all add: set_insertMove)

section \<open>The filter\<close>

lemma set_filterLoop: "set (filterLoop latestScore seen xs) \<subseteq> set xs"
  by (induction xs arbitrary: latestScore seen) auto

lemma sorted_filterLoop:
  "sorted_wrt P xs \<Longrightarrow> sorted_wrt P (filterLoop latestScore seen xs)"
proof (induction xs arbitrary: latestScore seen)
  case Nil
  then show ?case by simp
next
  case (Cons x xs)
  have "P x y" if "y \<in> set (filterLoop l s xs)" for y l s
    using that Cons.prems set_filterLoop [of l s xs] by auto
  with Cons show ?case by simp
qed

lemma filterLoop_unseen:
  "m \<in> set (filterLoop latestScore seen xs) \<Longrightarrow> wordText (wordStruct m) \<notin> set seen"
proof (induction xs arbitrary: latestScore seen)
  case Nil
  then show ?case by simp
next
  case (Cons x xs)
  show ?case
  proof (cases "seenTruthy seen (wordText (wordStruct x))
         \<or> protectedDiff x + countDiff x = latestScore")
    case True
    with Cons show ?thesis by simp
  next
    case False
    with Cons.prems have "m = x \<or> m \<in> set (filterLoop (protectedDiff x + countDiff x)
                    (wordText (wordStruct x) # seen) xs)"
      by simp
    then show ?thesis
    proof
      assume "m = x"
      with False show ?thesis by (simp add: seenTruthy_def)
    next
      assume "m \<in> set (filterLoop (protectedDiff x + countDiff x)
                    (wordText (wordStruct x) # seen) xs)"
      from Cons.IH [OF this] show ?thesis by simp
    qed
  qed
qed

lemma filterLoop_texts:
  "distinct (map (\<lambda>m. wordText (wordStruct m)) (filterLoop latestScore seen xs))"
proof (induction xs arbitrary: latestScore seen)
  case Nil
  then show ?case by simp
next
  case (Cons x xs)
  have "wordText (wordStruct x) \<notin>
          (\<lambda>m. wordText (wordStruct m)) ` set (filterLoop l (wordText (wordStruct x) # seen) xs)"
    for l
    using filterLoop_unseen [of _ l "wordText (wordStruct x) # seen" xs] by fastforce
  with Cons.IH show ?case by simp
qed

section \<open>Properties of the scored moves\<close>

text \<open>
  C9: whatever the raw move and the two ownership masks given, the two resulting
  ownership masks of a scored move have no square in common:
  \<open>newOurs & newTheirs == 0\<close>.
\<close>

theorem scored_masks_disjoint:
  "sm \<in> set (movesScoredForGameState cfg moves oursBitMask theirsBitMask) \<Longrightarrow>
   newOursBitMask sm AND newTheirsBitMask sm = 0"
  by (auto simp: movesScoredForGameState_def scoreMove_def Let_def bit_eq_iff bit_simps)

theorem scored_masks_disjoint_witness:
  "scoreMove \<lparr>MAX_BITMASK = 33554431, POSITIONS_TO_WIN = 13\<rparr> 3 12
       (\<lparr>wordText = ''cab'', letters = ''cab'', rank = 1\<rparr>, 7)
     \<in> set (movesScoredForGameState \<lparr>MAX_BITMASK = 33554431, POSITIONS_TO_WIN = 13\<rparr>
              [(\<lparr>wordText = ''cab'', letters = ''cab'', rank = 1\<rparr>, 7)] 3 12)
   \<and> newOursBitMask (scoreMove \<lparr>MAX_BITMASK = 33554431, POSITIONS_TO_WIN = 13\<rparr> 3 12
         (\<lparr>wordText = ''cab'', letters = ''cab'', rank = 1\<rparr>, 7))
       AND newTheirsBitMask (scoreMove \<lparr>MAX_BITMASK = 33554431, POSITIONS_TO_WIN = 13\<rparr> 3 12
         (\<lparr>wordText = ''cab'', letters = ''cab'', rank = 1\<rparr>, 7)) = 0"
  using scored_masks_disjoint
    [of "scoreMove \<lparr>MAX_BITMASK = 33554431, POSITIONS_TO_WIN = 13\<rparr> 3 12
           (\<lparr>wordText = ''cab'', letters = ''cab'', rank = 1\<rparr>, 7)"
        "\<lparr>MAX_BITMASK = 33554431, POSITIONS_TO_WIN = 13\<rparr>"
        "[(\<lparr>wordText = ''cab'', letters = ''cab'', rank = 1\<rparr>, 7)]" 3 12]
  by (simp add: movesScoredForGameState_def)

text \<open>
  C4: the \<open>gameEnder\<close> flag of a scored move is 0 whenever \<open>newOurs | newTheirs\<close> differs
  from the full board bitmask; when the two are equal it is 1 if the population count
  of \<open>newOurs\<close> reaches the win threshold and -1 otherwise.
\<close>

theorem gameEnder_flag:
  "sm \<in> set (movesScoredForGameState cfg moves oursBitMask theirsBitMask) \<Longrightarrow>
   gameEnder sm =
     (if sint (newOursBitMask sm OR newTheirsBitMask sm) \<noteq> MAX_BITMASK cfg then 0
      else if countBits (newOursBitMask sm) \<ge> POSITIONS_TO_WIN cfg then 1 else - 1)"
  by (auto simp: movesScoredForGameState_def scoreMove_def Let_def)

theorem gameEnder_flag_witness:
  "scoreMove \<lparr>MAX_BITMASK = 33554431, POSITIONS_TO_WIN = 13\<rparr> 33554424 0
       (\<lparr>wordText = ''cab'', letters = ''cab'', rank = 1\<rparr>, 7)
     \<in> set (movesScoredForGameState \<lparr>MAX_BITMASK = 33554431, POSITIONS_TO_WIN = 13\<rparr>
              [(\<lparr>wordText = ''cab'', letters = ''cab'', rank = 1\<rparr>, 7)] 33554424 0)
   \<and> gameEnder (scoreMove \<lparr>MAX_BITMASK = 33554431, POSITIONS_TO_WIN = 13\<rparr> 33554424 0
         (\<lparr>wordText = ''cab'', letters = ''cab'', rank = 1\<rparr>, 7)) = 1"
proof -
  have h: "scoreMove \<lparr>MAX_BITMASK = 33554431, POSITIONS_TO_WIN = 13\<rparr> 33554424 0
       (\<lparr>wordText = ''cab'', letters = ''cab'', rank = 1\<rparr>, 7)
     \<in> set (movesScoredForGameState \<lparr>MAX_BITMASK = 33554431, POSITIONS_TO_WIN = 13\<rparr>
              [(\<lparr>wordText = ''cab'', letters = ''cab'', rank = 1\<rparr>, 7)] 33554424 0)"
    by (simp add: movesScoredForGameState_def)
  have c: "countBits (33554431 :: bitmask) = 25"
    by code_simp
  have p: "getProtectedBitMask 0 = 0"
    by code_simp
  have n: "newOursBitMask (scoreMove \<lparr>MAX_BITMASK = 33554431, POSITIONS_TO_WIN = 13\<rparr> 33554424 0
       (\<lparr>wordText = ''cab'', letters = ''cab'', rank = 1\<rparr>, 7)) = 33554431"
    by (simp add: scoreMove_def Let_def p)
  have t: "newTheirsBitMask (scoreMove \<lparr>MAX_BITMASK = 33554431, POSITIONS_TO_WIN = 13\<rparr> 33554424 0
       (\<lparr>wordText = ''cab'', letters = ''cab'', rank = 1\<rparr>, 7)) = 0"
    by (simp add: scoreMove_def Let_def p)
  show ?thesis
    using h gameEnder_flag [OF h] by (simp add: n t c)
qed

section \<open>Properties of the list sent\<close>

text \<open>
  C5: the list \<open>getTopMoves\<close> returns is the image of the scored moves kept, and among
  these no entry is strictly better than an earlier one under the tie-break chain
  (\<open>gameEnder\<close> descending, \<open>protectedDiff\<close> descending, \<open>vulnerability\<close> ascending,
  \<open>countDiff\<close> descending, commonness rank ascending).
\<close>

theorem top_moves_ranked:
  "getTopMoves cfg moves oursBitMask theirsBitMask
     = map sendMove (topScoredMoves cfg moves oursBitMask theirsBitMask) \<and>
   sorted_wrt (\<lambda>a b. \<not> strictlyBetter b a)
     (topScoredMoves cfg moves oursBitMask theirsBitMask)"
  by (simp add: getTopMoves_def topScoredMoves_def filterMoves_def sorted_wrt_take
      sorted_filterLoop sorted_sortMoves)

text \<open>
  C6: the list \<open>getTopMoves\<close> returns has at most 19 entries, and no two of them carry
  the same word text.
\<close>

theorem top_moves_bounded_distinct:
  "length (getTopMoves cfg moves oursBitMask theirsBitMask) \<le> 19 \<and>
   distinct (map fst (getTopMoves cfg moves oursBitMask theirsBitMask))"
proof -
  have "map fst (getTopMoves cfg moves oursBitMask theirsBitMask)
      = take 19 (map (\<lambda>m. wordText (wordStruct m))
          (filterMoves (sortMoves
             (movesScoredForGameState cfg moves oursBitMask theirsBitMask))))"
    by (simp add: getTopMoves_def topScoredMoves_def sendMove_def take_map comp_def)
  moreover have "length (getTopMoves cfg moves oursBitMask theirsBitMask) \<le> 19"
    by (simp add: getTopMoves_def topScoredMoves_def)
  ultimately show ?thesis
    using filterLoop_texts by (simp add: filterMoves_def)
qed

text \<open>
  C10: \<open>filterMoves\<close> starts with the last accepted total at 0 and nothing seen, so a
  list whose first move has \<open>protectedDiff + countDiff = 0\<close> loses that move: the
  result is what the filter gives on the rest of the list, from the same start.
\<close>

theorem filterMoves_drops_zero_total_first:
  "filterMoves moves = filterLoop 0 [] moves \<and>
   (protectedDiff move + countDiff move = 0 \<longrightarrow>
      filterMoves (move # rest) = filterMoves rest)"
  by (simp add: filterMoves_def)

text \<open>
  With three squares of ours against three of theirs and nothing protected, the only
  candidate has total 0: it is dropped, and \<open>getTopMoves\<close> returns no move at all.
\<close>

theorem filterMoves_drops_zero_total_first_witness:
  "protectedDiff (scoreMove \<lparr>MAX_BITMASK = 33554431, POSITIONS_TO_WIN = 13\<rparr> 0 56
       (\<lparr>wordText = ''cab'', letters = ''cab'', rank = 1\<rparr>, 7))
   + countDiff (scoreMove \<lparr>MAX_BITMASK = 33554431, POSITIONS_TO_WIN = 13\<rparr> 0 56
       (\<lparr>wordText = ''cab'', letters = ''cab'', rank = 1\<rparr>, 7)) = 0
   \<and> filterMoves [scoreMove \<lparr>MAX_BITMASK = 33554431, POSITIONS_TO_WIN = 13\<rparr> 0 56
       (\<lparr>wordText = ''cab'', letters = ''cab'', rank = 1\<rparr>, 7)] = []
   \<and> getTopMoves \<lparr>MAX_BITMASK = 33554431, POSITIONS_TO_WIN = 13\<rparr>
       [(\<lparr>wordText = ''cab'', letters = ''cab'', rank = 1\<rparr>, 7)] 0 56 = []"
proof -
  let ?move = "scoreMove \<lparr>MAX_BITMASK = 33554431, POSITIONS_TO_WIN = 13\<rparr> 0 56
       (\<lparr>wordText = ''cab'', letters = ''cab'', rank = 1\<rparr>, 7)"
  have p: "getProtectedBitMask 56 = 0" "getProtectedBitMask 7 = 0"
    by code_simp+
  have c: "countBits 56 = 3" "countBits 7 = 3" "countBits 0 = 0"
    by code_simp+
  have z: "protectedDiff ?move + countDiff ?move = 0"
    by (simp add: scoreMove_def Let_def p c)
  from z filterMoves_drops_zero_total_first [of "[]" ?move "[]"]
  have f: "filterMoves [?move] = []"
    by simp
  then have "getTopMoves \<lparr>MAX_BITMASK = 33554431, POSITIONS_TO_WIN = 13\<rparr>
       [(\<lparr>wordText = ''cab'', letters = ''cab'', rank = 1\<rparr>, 7)] 0 56 = []"
    by (simp add: getTopMoves_def topScoredMoves_def movesScoredForGameState_def
        sortMoves_def)
  with z f show ?thesis by simp
qed

end
